theory Spec2Isabelle
  imports Main "HOL-Library.Multiset" "HOL-Library.Transitive_Closure_Table"
begin

section \<open>Watcher ownership (watcher/ownership.ts)\<close>

text \<open>
  The ownership protocol elects one writer over the shared store. The TypeScript
  works on three things outside itself, which the embedding makes explicit:
  \<^item> the process environment: \<open>Date.now()\<close>, \<open>new Date().toISOString()\<close>,
    \<open>new Date(value).getTime()\<close> and \<open>process.kill(pid, 0)\<close>;
  \<^item> the store behind the interface \<open>WatcherOwnerStore\<close>;
  \<^item> the options of the call, each of which may be absent.

  Numbers: process ids, epoch milliseconds and the stale threshold are JavaScript numbers
  that hold integers here, so they are \<open>int\<close>. \<open>Math.floor(x / 1000)\<close> on an integer
  \<open>x\<close> is \<open>x div 1000\<close>: \<open>div\<close> on \<open>int\<close> rounds towards minus infinity, as
  \<open>Math.floor\<close> does. A date text that does not parse makes \<open>getTime()\<close> return
  \<open>NaN\<close>; that is the value \<open>None\<close> of \<open>date_parse\<close>.
\<close>

datatype WatcherRole = Owner | Reader

record WatcherOwnerRow =
  pid :: int
  heartbeat_at :: string
  instance_id :: "string option"

text \<open>What \<open>process.kill(pid, 0)\<close> does: it returns, or it throws an object that has a
  \<open>code\<close> property (whose value is a string, or something else: \<open>None\<close>), or it throws
  anything else.\<close>

datatype kill_outcome = Delivered | ThrewWithCode "string option" | ThrewOther

record environment =
  date_now :: int
  iso_now :: string
  date_parse :: "string \<Rightarrow> int option"
  process_kill :: "int \<Rightarrow> kill_outcome"

text \<open>
  The store. The interface \<open>WatcherOwnerStore\<close> has one implementation in the sources
  at hand, the in-memory store \<open>createFakeDb\<close> of ownership.spec.ts: its state is one
  optional row, and both \<open>insertOwner\<close> and \<open>replaceOwner\<close> overwrite that row with
  the given pid, the store's own clock reading and \<open>instanceId ?? null\<close>.
  \<open>immediateTransaction(fn)\<close> runs \<open>fn\<close>, so it does not appear.
\<close>

type_synonym owner_store = "WatcherOwnerRow option"

definition selectOwner :: "owner_store \<Rightarrow> WatcherOwnerRow option" where
  "selectOwner db = db"

definition insertOwner :: "environment \<Rightarrow> int \<Rightarrow> string option \<Rightarrow> owner_store \<Rightarrow> owner_store" where
  "insertOwner env p instanceId db =
     Some \<lparr>pid = p, heartbeat_at = iso_now env, instance_id = instanceId\<rparr>"

definition replaceOwner :: "environment \<Rightarrow> int \<Rightarrow> string option \<Rightarrow> owner_store \<Rightarrow> owner_store" where
  "replaceOwner env p instanceId db =
     Some \<lparr>pid = p, heartbeat_at = iso_now env, instance_id = instanceId\<rparr>"

definition touchOwner :: "environment \<Rightarrow> int \<Rightarrow> owner_store \<Rightarrow> owner_store" where
  "touchOwner env p db =
     (case db of
        None \<Rightarrow> None
      | Some row \<Rightarrow> if pid row = p then Some (row\<lparr>pid := p, heartbeat_at := iso_now env\<rparr>) else db)"

definition deleteOwner :: "int \<Rightarrow> owner_store \<Rightarrow> owner_store" where
  "deleteOwner p db =
     (case db of None \<Rightarrow> None | Some row \<Rightarrow> if pid row = p then None else db)"

record AcquireOptions =
  now :: "int option"
  isAlive :: "(int \<Rightarrow> bool) option"
  staleAfterSeconds :: "int option"
  instanceId :: "string option"

text \<open>\<open>options.now\<close> is a function of no argument; \<open>acquireWatcherRole\<close> calls it at most
  once, so the option holds the number it returns.\<close>

definition defaultIsAlive :: "environment \<Rightarrow> int \<Rightarrow> bool" where
  "defaultIsAlive env p =
     (case process_kill env p of
        Delivered \<Rightarrow> True
      | ThrewWithCode code \<Rightarrow> code \<noteq> Some ''ESRCH''
      | ThrewOther \<Rightarrow> True)"

definition toEpochMs :: "environment \<Rightarrow> string \<Rightarrow> int" where
  "toEpochMs env v = (case date_parse env v of None \<Rightarrow> 0 | Some ms \<Rightarrow> ms)"

text \<open>JavaScript truthiness of a \<open>string | null | undefined\<close>: absent and the empty
  string are both falsy.\<close>

definition truthy :: "string option \<Rightarrow> bool" where
  "truthy s = (case s of None \<Rightarrow> False | Some t \<Rightarrow> t \<noteq> [])"

definition acquireWatcherRole ::
  "environment \<Rightarrow> owner_store \<Rightarrow> int \<Rightarrow> AcquireOptions \<Rightarrow> WatcherRole \<times> owner_store" where
  "acquireWatcherRole env db p options =
     (let now_ms = (case now options of None \<Rightarrow> date_now env | Some t \<Rightarrow> t);
          alive = (case isAlive options of None \<Rightarrow> defaultIsAlive env | Some f \<Rightarrow> f);
          stale = (case staleAfterSeconds options of None \<Rightarrow> 60 | Some s \<Rightarrow> s);
          iid = instanceId options
      in case selectOwner db of
           None \<Rightarrow> (Owner, insertOwner env p iid db)
         | Some ownr \<Rightarrow>
             (let heartbeatAgeSeconds = (now_ms - toEpochMs env (heartbeat_at ownr)) div 1000;
                  pidAlive = alive (pid ownr)
              in if pidAlive \<and> truthy iid \<and> truthy (instance_id ownr)
                      \<and> instance_id ownr \<noteq> iid \<and> pid ownr \<noteq> p
                 then (Owner, replaceOwner env p iid db)
                 else if pidAlive \<and> heartbeatAgeSeconds < stale
                 then (Reader, db)
                 else (Owner, replaceOwner env p iid db)))"

definition releaseWatcherRole :: "int \<Rightarrow> owner_store \<Rightarrow> owner_store" where
  "releaseWatcherRole p db = deleteOwner p db"

definition updateHeartbeat :: "environment \<Rightarrow> int \<Rightarrow> owner_store \<Rightarrow> owner_store" where
  "updateHeartbeat env p db = touchOwner env p db"

subsection \<open>The quantities the protocol is described with\<close>

definition nowOf :: "environment \<Rightarrow> AcquireOptions \<Rightarrow> int" where
  "nowOf env options = (case now options of None \<Rightarrow> date_now env | Some t \<Rightarrow> t)"

definition aliveOf :: "environment \<Rightarrow> AcquireOptions \<Rightarrow> int \<Rightarrow> bool" where
  "aliveOf env options = (case isAlive options of None \<Rightarrow> defaultIsAlive env | Some f \<Rightarrow> f)"

definition staleOf :: "AcquireOptions \<Rightarrow> int" where
  "staleOf options = (case staleAfterSeconds options of None \<Rightarrow> 60 | Some s \<Rightarrow> s)"

definition heartbeatAge :: "environment \<Rightarrow> AcquireOptions \<Rightarrow> WatcherOwnerRow \<Rightarrow> int" where
  "heartbeatAge env options row = (nowOf env options - toEpochMs env (heartbeat_at row)) div 1000"

text \<open>The age of a heartbeat in whole seconds at the time \<open>t\<close> (in milliseconds), from
  what the date parser makes of the stored text: the seconds from the parsed time to
  \<open>t\<close>, rounded down; a text that does not parse counts as the epoch.\<close>

definition secondsSince :: "int \<Rightarrow> int option \<Rightarrow> int" where
  "secondsSince t parsed = (t - (case parsed of None \<Rightarrow> 0 | Some ms \<Rightarrow> ms)) div 1000"

text \<open>The condition of the PID-recycling branch, the liveness of the stored pid apart.\<close>

definition recycled :: "AcquireOptions \<Rightarrow> int \<Rightarrow> WatcherOwnerRow \<Rightarrow> bool" where
  "recycled options p row =
     (truthy (instanceId options) \<and> truthy (instance_id row)
      \<and> instance_id row \<noteq> instanceId options \<and> pid row \<noteq> p)"

text \<open>The row that the caller installs when it becomes the owner.\<close>

definition callerRow :: "environment \<Rightarrow> int \<Rightarrow> AcquireOptions \<Rightarrow> WatcherOwnerRow" where
  "callerRow env p options =
     \<lparr>pid = p, heartbeat_at = iso_now env, instance_id = instanceId options\<rparr>"

subsection \<open>Concrete inputs\<close>

text \<open>An environment whose date parser knows two texts; every other text is unparsable.\<close>

definition parse_two :: "string \<Rightarrow> int option" where
  "parse_two v =
     (if v = ''1970-01-01T00:00:00.000Z'' then Some 0
      else if v = ''1970-01-01T00:01:40.000Z'' then Some 100000
      else None)"

definition kill_ok :: "int \<Rightarrow> kill_outcome" where
  "kill_ok p = Delivered"

definition env_at :: "int \<Rightarrow> environment" where
  "env_at t = \<lparr>date_now = t, iso_now = ''1970-01-01T00:01:40.000Z'',
               date_parse = parse_two, process_kill = kill_ok\<rparr>"

definition always_alive :: "int \<Rightarrow> bool" where
  "always_alive p = True"

definition row_epoch :: "string option \<Rightarrow> WatcherOwnerRow" where
  "row_epoch i = \<lparr>pid = 7, heartbeat_at = ''1970-01-01T00:00:00.000Z'', instance_id = i\<rparr>"

definition row_later :: WatcherOwnerRow where
  "row_later = \<lparr>pid = 7, heartbeat_at = ''1970-01-01T00:01:40.000Z'', instance_id = None\<rparr>"


definition row_garbled :: WatcherOwnerRow where
  "row_garbled = \<lparr>pid = 7, heartbeat_at = ''not-a-date'', instance_id = None\<rparr>"

definition opts_with :: "int \<Rightarrow> int \<Rightarrow> string option \<Rightarrow> AcquireOptions" where
  "opts_with t s i =
     \<lparr>now = Some t, isAlive = Some always_alive, staleAfterSeconds = Some s, instanceId = i\<rparr>"

section \<open>Parse API of the facade (gildash/parse-api.ts)\<close>

text \<open>
  A JavaScript function returns a value or throws one. What is thrown is an \<open>Error\<close>
  object or any other value; \<open>GildashError(type, message)\<close> is an \<open>Error\<close> that carries
  its type. \<open>parseSourceFn\<close> returns a \<open>Result\<close>: an \<open>Err\<close> holding a
  \<open>GildashError\<close> (\<open>Inl\<close>), or the parsed file (\<open>Inr\<close>); it may also throw.
  \<open>readFileFn\<close> resolves with the text or rejects.

  The parsed file \<open>'p\<close>, the parser options \<open>'o\<close> and the LRU cache \<open>'c\<close> are kept
  abstract; the cache class is not among the sources, so its two methods are fields of
  the context.
\<close>

datatype js_error = GildashError string string | PlainError string

datatype thrown = ThrownError js_error | ThrownValue string

datatype 'a outcome = Returned 'a | Threw thrown

record ('p, 'o, 'c) GildashContext =
  closed :: bool
  parseSourceFn :: "string \<Rightarrow> string \<Rightarrow> 'o option \<Rightarrow> (js_error + 'p) outcome"
  readFileFn :: "string \<Rightarrow> string outcome"
  parseCache :: 'c
  cache_set :: "'c \<Rightarrow> string \<Rightarrow> 'p \<Rightarrow> 'c"
  cache_get :: "'c \<Rightarrow> string \<Rightarrow> 'p option \<times> 'c"

record 'p BatchParseResult =
  parsed :: "string \<rightharpoonup> 'p"
  failures :: "(string \<times> js_error) list"

definition closedError :: thrown where
  "closedError = ThrownError (GildashError ''closed'' ''Gildash: instance is closed'')"

text \<open>\<open>parseSource\<close> returns the parsed file and leaves it in the cache, or throws.\<close>

definition parseSource ::
  "('p, 'o, 'c) GildashContext \<Rightarrow> string \<Rightarrow> string \<Rightarrow> 'o option
     \<Rightarrow> ('p \<times> ('p, 'o, 'c) GildashContext) outcome" where
  "parseSource ctx fp sourceText options =
     (if closed ctx then Threw closedError
      else case parseSourceFn ctx fp sourceText options of
             Threw e \<Rightarrow> Threw e
           | Returned (Inl err) \<Rightarrow> Threw (ThrownError err)
           | Returned (Inr result) \<Rightarrow>
               Returned (result, ctx\<lparr>parseCache := cache_set ctx (parseCache ctx) fp result\<rparr>))"

text \<open>\<open>e instanceof Error ? e : new Error(String(e))\<close>\<close>

definition asError :: "thrown \<Rightarrow> js_error" where
  "asError e = (case e of ThrownError err \<Rightarrow> err | ThrownValue s \<Rightarrow> PlainError s)"

text \<open>
  The body of the callback that \<open>batchParse\<close> maps over the paths, from the point where
  the read has settled: it adds the file to \<open>parsed\<close> or an entry to \<open>failures\<close>.
\<close>

definition batchParseOne ::
  "('p, 'o, 'c) GildashContext \<Rightarrow> 'o option \<Rightarrow> string \<Rightarrow> 'p BatchParseResult
     \<Rightarrow> 'p BatchParseResult" where
  "batchParseOne ctx options fp acc =
     (case readFileFn ctx fp of
        Threw e \<Rightarrow> acc\<lparr>failures := failures acc @ [(fp, asError e)]\<rparr>
      | Returned text \<Rightarrow>
          (case parseSourceFn ctx fp text options of
             Threw e \<Rightarrow> acc\<lparr>failures := failures acc @ [(fp, asError e)]\<rparr>
           | Returned (Inl err) \<Rightarrow> acc\<lparr>failures := failures acc @ [(fp, err)]\<rparr>
           | Returned (Inr result) \<Rightarrow> acc\<lparr>parsed := (parsed acc)(fp \<mapsto> result)\<rparr>))"

text \<open>
  \<open>Promise.all\<close> over the callbacks: all reads are started, and each callback goes on
  when its read settles. The order in which they settle is not fixed by the program; it
  is the argument \<open>settled\<close>, the positions of \<open>filePaths\<close> in the order of settling
  (a permutation of \<open>[0..<length filePaths]\<close>; a position out of range is skipped).
\<close>

definition batchParse ::
  "('p, 'o, 'c) GildashContext \<Rightarrow> string list \<Rightarrow> 'o option \<Rightarrow> nat list
     \<Rightarrow> 'p BatchParseResult outcome" where
  "batchParse ctx filePaths options settled =
     (if closed ctx then Threw closedError
      else Returned
        (fold (batchParseOne ctx options)
           (map (\<lambda>i. filePaths ! i) (filter (\<lambda>i. i < length filePaths) settled))
           \<lparr>parsed = Map.empty, failures = []\<rparr>))"

text \<open>\<open>getParsedAst\<close> returns \<open>ParsedFile | undefined\<close>; the cache's \<open>get\<close> may reorder
  the cache, so the cache is returned as well.\<close>

definition getParsedAst ::
  "('p, 'o, 'c) GildashContext \<Rightarrow> string \<Rightarrow> ('p option \<times> ('p, 'o, 'c) GildashContext) outcome" where
  "getParsedAst ctx fp =
     (if closed ctx then Returned (None, ctx)
      else case cache_get ctx (parseCache ctx) fp of
             (r, c) \<Rightarrow> Returned (r, ctx\<lparr>parseCache := c\<rparr>))"

text \<open>A file fails when its read rejects, or the parser throws or returns an \<open>Err\<close>.\<close>

definition fileFails :: "('p, 'o, 'c) GildashContext \<Rightarrow> 'o option \<Rightarrow> string \<Rightarrow> bool" where
  "fileFails ctx options fp =
     (case readFileFn ctx fp of
        Threw e \<Rightarrow> True
      | Returned text \<Rightarrow>
          (case parseSourceFn ctx fp text options of
             Returned (Inr result) \<Rightarrow> False
           | _ \<Rightarrow> True))"

text \<open>The parsed file of a path that does not fail.\<close>

definition parseOf :: "('p, 'o, 'c) GildashContext \<Rightarrow> 'o option \<Rightarrow> string \<Rightarrow> 'p option" where
  "parseOf ctx options fp =
     (case readFileFn ctx fp of
        Threw e \<Rightarrow> None
      | Returned text \<Rightarrow>
          (case parseSourceFn ctx fp text options of
             Returned (Inr result) \<Rightarrow> Some result
           | _ \<Rightarrow> None))"

subsection \<open>Concrete inputs\<close>

text \<open>A context over a three-file disk: \<open>a.ts\<close> parses, \<open>b.ts\<close> is rejected by the
  parser, and any other path cannot be read. A parsed file is its source text; the cache
  is an association list.\<close>

definition disk_read :: "string \<Rightarrow> string outcome" where
  "disk_read fp =
     (if fp = ''a.ts'' then Returned ''export const A = 1;''
      else if fp = ''b.ts'' then Returned ''export const = ;''
      else Threw (ThrownValue ''ENOENT''))"

definition disk_parse :: "string \<Rightarrow> string \<Rightarrow> unit option \<Rightarrow> (js_error + string) outcome" where
  "disk_parse fp text options =
     (if text = ''export const = ;'' then Returned (Inl (GildashError ''parse'' fp))
      else Returned (Inr text))"

definition alist_set :: "(string \<times> string) list \<Rightarrow> string \<Rightarrow> string \<Rightarrow> (string \<times> string) list" where
  "alist_set c k v = (k, v) # c"

definition alist_get :: "(string \<times> string) list \<Rightarrow> string \<Rightarrow> string option \<times> (string \<times> string) list" where
  "alist_get c k = (map_of c k, c)"

definition disk_ctx :: "bool \<Rightarrow> (string, unit, (string \<times> string) list) GildashContext" where
  "disk_ctx shut =
     \<lparr>closed = shut, parseSourceFn = disk_parse, readFileFn = disk_read,
      parseCache = [(''a.ts'', ''export const A = 1;'')],
      cache_set = alist_set, cache_get = alist_get\<rparr>"

section \<open>Structural pattern search (search/pattern-search.ts)\<close>

text \<open>
  \<open>findInFiles\<close> of the structural search engine is outside the program. A call of it
  gets the language, the paths and the rule, and a callback; it calls the callback any
  number of times, each time with an error or with a batch of nodes, and resolves or
  rejects. The embedding takes the engine as a function from the configuration to what
  it does, and returns, beside the result, the list of the calls made to the engine.
\<close>

record PatternMatch =
  filePath :: string
  startLine :: int
  endLine :: int
  matchedText :: string

record PatternSearchOptions =
  pattern :: string
  filePaths :: "string list"

record SgNode =
  node_filename :: string
  range_start_line :: int
  range_end_line :: int
  node_text :: string

record FindConfig =
  paths :: "string list"
  rule_pattern :: string

text \<open>One call of the callback: \<open>Inl\<close> with an error, \<open>Inr\<close> with the nodes.\<close>

type_synonym callback_call = "js_error + SgNode list"

type_synonym engine = "FindConfig \<Rightarrow> callback_call list outcome"

definition toMatch :: "SgNode \<Rightarrow> PatternMatch" where
  "toMatch node =
     \<lparr>filePath = node_filename node, startLine = range_start_line node + 1,
      endLine = range_end_line node + 1, matchedText = node_text node\<rparr>"

definition onNodes :: "callback_call \<Rightarrow> PatternMatch list \<Rightarrow> PatternMatch list" where
  "onNodes c matches = (case c of Inl err \<Rightarrow> matches | Inr nodes \<Rightarrow> matches @ map toMatch nodes)"

definition patternSearch ::
  "engine \<Rightarrow> PatternSearchOptions \<Rightarrow> PatternMatch list outcome \<times> FindConfig list" where
  "patternSearch findInFiles opts =
     (if length (filePaths opts) = 0 then (Returned [], [])
      else (let cfg = \<lparr>paths = filePaths opts, rule_pattern = pattern opts\<rparr>
            in case findInFiles cfg of
                 Threw e \<Rightarrow> (Threw e, [cfg])
               | Returned calls \<Rightarrow> (Returned (fold onNodes calls []), [cfg])))"

subsection \<open>Concrete inputs\<close>

definition one_hit :: engine where
  "one_hit cfg =
     Returned [Inr [\<lparr>node_filename = ''/p/a.ts'', range_start_line = 0, range_end_line = 0,
                     node_text = rule_pattern cfg\<rparr>]]"

section \<open>Dependency graph (search/dependency-graph.ts)\<close>

text \<open>
  The class \<open>DependencyGraph\<close> is not among the sources at hand: only its property
  tests (dependency-graph.property.spec.ts), its callers, and the opening lines of
  \<open>build()\<close> quoted in the repository's design notes are. Its state and operations are
  therefore modelled from the specification (section 4.7), each under a comment that
  says so.

  A JavaScript \<open>Map<string, Set<string>>\<close> keeps its keys, and a \<open>Set\<close> its members,
  in insertion order and without repetition: it is an association list whose values are
  lists.
\<close>

datatype relation_type = Imports | TypeReferences | ReExports | Calls | Extends | Implements

record RelationRecord =
  rel_project :: string
  rel_type :: relation_type
  srcFilePath :: string
  dstFilePath :: string

type_synonym adjacency = "(string \<times> string list) list"

text \<open>\<open>map.get(k).add(v)\<close>, with the entry created when the key is new.\<close>

fun add_to :: "string \<Rightarrow> string \<Rightarrow> adjacency \<Rightarrow> adjacency" where
  "add_to k v [] = [(k, [v])]"
| "add_to k v ((k', vs) # m) =
     (if k' = k then (k', if v \<in> set vs then vs else vs @ [v]) # m
      else (k', vs) # add_to k v m)"

text \<open>\<open>map.get(k) ?? []\<close>\<close>

definition adj_get :: "adjacency \<Rightarrow> string \<Rightarrow> string list" where
  "adj_get m k = (case map_of m k of None \<Rightarrow> [] | Some vs \<Rightarrow> vs)"

text \<open>The edges an adjacency map holds: the pairs of a key and a member of its set.\<close>

definition edges_of :: "adjacency \<Rightarrow> (string \<times> string) set" where
  "edges_of m = (\<Union>(k, vs)\<in>set m. Pair k ` set vs)"

text \<open>Modelled from the spec: the state of the class \<open>DependencyGraph\<close>, "forward
  adjacency map (file to set of dependency files) and reverse adjacency map".\<close>

record DependencyGraph =
  adjacencyList :: adjacency
  reverseAdjacencyList :: adjacency

definition emptyGraph :: DependencyGraph where
  "emptyGraph = \<lparr>adjacencyList = [], reverseAdjacencyList = []\<rparr>"

text \<open>Modelled from the spec: the step of \<open>build()\<close> that is missing from the sources,
  which "assembles both maps" from a relation: the edge goes into the forward map under
  its source and into the reverse map under its destination. A self-loop is an edge like
  any other ("self-loops are preserved").\<close>

definition addEdge :: "string \<times> string \<Rightarrow> DependencyGraph \<Rightarrow> DependencyGraph" where
  "addEdge e g =
     \<lparr>adjacencyList = add_to (fst e) (snd e) (adjacencyList g),
      reverseAdjacencyList = add_to (snd e) (fst e) (reverseAdjacencyList g)\<rparr>"

text \<open>
  The constructor's options; \<open>relationRepo.getByType(project, type)\<close> is the repository.
  The relations are loaded as the quoted opening of \<open>build()\<close> does: for the project
  and then each additional project, the relations of type \<open>imports\<close>,
  \<open>type-references\<close> and \<open>re-exports\<close>, in this order.
\<close>

record DependencyGraphOptions =
  relationRepo :: "string \<Rightarrow> relation_type \<Rightarrow> RelationRecord list"
  graph_project :: string
  additionalProjects :: "string list option"

definition loadRelations :: "DependencyGraphOptions \<Rightarrow> RelationRecord list" where
  "loadRelations opts =
     concat (map (\<lambda>p. concat (map (relationRepo opts p) [Imports, TypeReferences, ReExports]))
                 (graph_project opts # (case additionalProjects opts of None \<Rightarrow> [] | Some ps \<Rightarrow> ps)))"

definition endpoints :: "RelationRecord \<Rightarrow> string \<times> string" where
  "endpoints r = (srcFilePath r, dstFilePath r)"

text \<open>Modelled from the spec: \<open>build()\<close>, "load all relations of type imports,
  type-references, re-exports (optionally across more than one project) and assemble both
  maps"; the body of the method after the loading is missing from the sources.\<close>

definition build :: "DependencyGraphOptions \<Rightarrow> DependencyGraph" where
  "build opts = fold addEdge (map endpoints (loadRelations opts)) emptyGraph"

text \<open>Modelled from the spec: the first half of \<open>patchFiles\<close>, missing from the
  sources: "for each file in changed and deleted, remove all its outgoing edges from the
  forward map and its membership from every reverse entry".\<close>

definition removeOutgoing :: "string \<Rightarrow> DependencyGraph \<Rightarrow> DependencyGraph" where
  "removeOutgoing f g =
     \<lparr>adjacencyList = map (\<lambda>(k, vs). if k = f then (k, []) else (k, vs)) (adjacencyList g),
      reverseAdjacencyList = map (\<lambda>(k, vs). (k, removeAll f vs)) (reverseAdjacencyList g)\<rparr>"

text \<open>Modelled from the spec: \<open>patchFiles(changed, deleted, relationsFor)\<close>, missing
  from the sources: the removal above for the changed and then the deleted files, and
  then "for each file in changed, insert edges given by relationsFor(file)". As in the
  property test, \<open>relationsFor\<close> returns the source and destination of each relation.\<close>

definition patchFiles ::
  "string list \<Rightarrow> string list \<Rightarrow> (string \<Rightarrow> (string \<times> string) list) \<Rightarrow> DependencyGraph
     \<Rightarrow> DependencyGraph" where
  "patchFiles changed deleted relationsFor g =
     fold (\<lambda>f. fold addEdge (relationsFor f)) changed
       (fold removeOutgoing (changed @ deleted) g)"

text \<open>The files of a graph, in the order in which the forward map first mentions them.\<close>

definition nodes :: "adjacency \<Rightarrow> string list" where
  "nodes m = rev (remdups (rev (concat (map (\<lambda>(k, vs). k # vs) m))))"

definition reaches :: "adjacency \<Rightarrow> string \<Rightarrow> string \<Rightarrow> bool" where
  "reaches m v w = (v = w \<or> (v, w) \<in> (edges_of m)\<^sup>+)"

text \<open>Modelled from the spec: the result of the strongly-connected-components pass
  ("Tarjan SCC"), missing from the sources. The model takes the components for what
  they are, the classes of files that reach each other, each listed in the order of
  \<open>nodes\<close>; it does not retrace the steps of Tarjan's algorithm.\<close>

definition component :: "adjacency \<Rightarrow> string \<Rightarrow> string list" where
  "component m v = filter (\<lambda>w. reaches m v w \<and> reaches m w v) (nodes m)"

definition sccs :: "adjacency \<Rightarrow> string list list" where
  "sccs m = remdups (map (component m) (nodes m))"

definition hasSelfLoop :: "adjacency \<Rightarrow> bool" where
  "hasSelfLoop m = list_ex (\<lambda>(k, vs). k \<in> set vs) m"

text \<open>Modelled from the spec: \<open>hasCycle()\<close>, missing from the sources: "true iff Tarjan
  SCC produces a component of size > 1 or any self-loop exists".\<close>

definition hasCycle :: "DependencyGraph \<Rightarrow> bool" where
  "hasCycle g =
     (list_ex (\<lambda>c. 1 < length c) (sccs (adjacencyList g)) \<or> hasSelfLoop (adjacencyList g))"

text \<open>A component is non-trivial when it can hold a cycle: it has more than one file, or
  its file depends on itself.\<close>

definition nontrivial :: "adjacency \<Rightarrow> string list \<Rightarrow> bool" where
  "nontrivial m c = (1 < length c \<or> list_ex (\<lambda>v. v \<in> set (adj_get m v)) c)"

text \<open>
  Modelled from the spec: the search for the simple cycles through a start file \<open>s\<close>,
  missing from the sources. As in Johnson's algorithm the search is depth-first from
  \<open>s\<close>, goes only through files that come after \<open>s\<close> in its component and are not on
  the current path (\<open>avail\<close>), and reports the path whenever an edge leads back to \<open>s\<close>.
  Johnson's blocked sets, which prune searches that cannot succeed, are left out: they
  shorten the search and do not change the cycles found.
\<close>

function circuitsFrom ::
  "adjacency \<Rightarrow> string \<Rightarrow> string list \<Rightarrow> string list \<Rightarrow> string \<Rightarrow> string list list" where
  "circuitsFrom m s avail path v =
     concat (map (\<lambda>w. if w = s then [rev (v # path)]
                       else if w \<in> set avail
                            then circuitsFrom m s (removeAll w avail) (v # path) w
                            else [])
                 (adj_get m v))"
  by pat_completeness auto
termination
  by (relation "measure (\<lambda>(m, s, avail, path, v). length avail)")
     (auto simp add: length_removeAll_less)

declare circuitsFrom.simps [simp del]

text \<open>The cycles of one component: those through its first file, then those of the rest
  that avoid it.\<close>

fun circuitsOf :: "adjacency \<Rightarrow> string list \<Rightarrow> string list list" where
  "circuitsOf m [] = []"
| "circuitsOf m (s # rest) = circuitsFrom m s rest [] s @ circuitsOf m rest"

record CyclePathOptions =
  maxCycles :: "nat option"
  maxLength :: "nat option"

text \<open>Modelled from the spec: \<open>cyclePaths(options?)\<close>, missing from the sources:
  "enumerate simple cycles using Johnson's algorithm over each non-trivial SCC, optionally
  limited by count or length". Without options nothing is cut.\<close>

definition cyclePaths :: "DependencyGraph \<Rightarrow> CyclePathOptions option \<Rightarrow> string list list" where
  "cyclePaths g options =
     (let m = adjacencyList g;
          found = concat (map (circuitsOf m) (filter (nontrivial m) (sccs m)))
      in case options of
           None \<Rightarrow> found
         | Some opt \<Rightarrow>
             (let short = (case maxLength opt of None \<Rightarrow> found
                           | Some l \<Rightarrow> filter (\<lambda>c. length c \<le> l) found)
              in case maxCycles opt of None \<Rightarrow> short | Some n \<Rightarrow> take n short))"

text \<open>A simple cycle of a graph: a non-empty list of distinct files, each depending on
  the next and the last on the first.\<close>

definition simple_cycle :: "adjacency \<Rightarrow> string list \<Rightarrow> bool" where
  "simple_cycle m p =
     (p \<noteq> [] \<and> distinct p \<and> successively (\<lambda>a b. (a, b) \<in> edges_of m) p
      \<and> (last p, hd p) \<in> edges_of m)"

text \<open>The invariant of the graphs that \<open>build\<close> and \<open>patchFiles\<close> produce: no key occurs
  twice in the forward map, and the reverse map holds the forward edges reversed.\<close>

definition wf_graph :: "DependencyGraph \<Rightarrow> bool" where
  "wf_graph g = (distinct (map fst (adjacencyList g))
     \<and> edges_of (reverseAdjacencyList g) = (edges_of (adjacencyList g))\<inverse>)"

subsection \<open>Concrete inputs\<close>

text \<open>A repository over a list of relations, and an \<open>imports\<close> relation of project
  \<open>p\<close>.\<close>

definition repo_of :: "RelationRecord list \<Rightarrow> string \<Rightarrow> relation_type \<Rightarrow> RelationRecord list" where
  "repo_of rs p t = filter (\<lambda>r. rel_project r = p \<and> rel_type r = t) rs"

definition imp :: "string \<Rightarrow> string \<Rightarrow> RelationRecord" where
  "imp s d = \<lparr>rel_project = ''p'', rel_type = Imports, srcFilePath = s, dstFilePath = d\<rparr>"

definition opts_of :: "RelationRecord list \<Rightarrow> DependencyGraphOptions" where
  "opts_of rs = \<lparr>relationRepo = repo_of rs, graph_project = ''p'', additionalProjects = None\<rparr>"

text \<open>After a change in which \<open>a.ts\<close> imports \<open>c.ts\<close> and nothing else imports.\<close>

definition rels_after :: "string \<Rightarrow> (string \<times> string) list" where
  "rels_after f = (if f = ''a.ts'' then [(''a.ts'', ''c.ts'')] else [])"

section \<open>Properties\<close>

subsection \<open>Properties of acquire\<close>

lemma acquire_absent:
  "acquireWatcherRole env None p options = (Owner, Some (callerRow env p options))"
  by (simp add: acquireWatcherRole_def selectOwner_def insertOwner_def callerRow_def)

lemma acquire_present:
  "acquireWatcherRole env (Some row) p options =
     (if aliveOf env options (pid row) \<and> recycled options p row
      then (Owner, Some (callerRow env p options))
      else if aliveOf env options (pid row) \<and> heartbeatAge env options row < staleOf options
      then (Reader, Some row)
      else (Owner, Some (callerRow env p options)))"
  by (simp add: acquireWatcherRole_def selectOwner_def replaceOwner_def callerRow_def
      aliveOf_def recycled_def heartbeatAge_def nowOf_def staleOf_def Let_def)

lemma heartbeatAge_parsed:
  "heartbeatAge env options row
     = secondsSince (nowOf env options) (date_parse env (heartbeat_at row))"
  by (simp add: heartbeatAge_def secondsSince_def toEpochMs_def)

text \<open>
  C3. When a row exists, its pid is alive and the PID-recycling branch does not apply,
  acquire returns reader with the row unchanged exactly when the age of the stored
  heartbeat in whole seconds (the seconds from the time the stored text parses to until
  now, rounded down) is strictly below staleAfterSeconds; in every other case, the age
  equal to the threshold among them, the row is replaced by the caller's and the result
  is owner.
\<close>

theorem acquire_alive_stale_boundary:
  assumes "aliveOf env options (pid row)"
    and "\<not> recycled options p row"
  shows "(acquireWatcherRole env (Some row) p options = (Reader, Some row))
           = (secondsSince (nowOf env options) (date_parse env (heartbeat_at row))
                < staleOf options)
       \<and> (fst (acquireWatcherRole env (Some row) p options) = Reader)
           = (secondsSince (nowOf env options) (date_parse env (heartbeat_at row))
                < staleOf options)
       \<and> (staleOf options
              \<le> secondsSince (nowOf env options) (date_parse env (heartbeat_at row)) \<longrightarrow>
            acquireWatcherRole env (Some row) p options
              = (Owner, Some (callerRow env p options)))"
  using assms by (simp add: acquire_present heartbeatAge_parsed)

theorem acquire_alive_stale_boundary_witness:
  "date_parse (env_at 0) (heartbeat_at row_later) = Some 100000
   \<and> secondsSince 190000 (Some 100000) = 90
   \<and> secondsSince 150000 (Some 100000) = 50
   \<and> staleOf (opts_with 190000 90 None) = 90
   \<and> acquireWatcherRole (env_at 0) (Some row_later) 100 (opts_with 190000 90 None)
       = (Owner, Some (callerRow (env_at 0) 100 (opts_with 190000 90 None)))
   \<and> acquireWatcherRole (env_at 0) (Some row_later) 100 (opts_with 189999 90 None)
       = (Reader, Some row_later)
   \<and> acquireWatcherRole (env_at 0) (Some row_later) 100 (opts_with 150000 90 None)
       = (Reader, Some row_later)
   \<and> acquireWatcherRole (env_at 0) (Some (row_epoch None)) 100 (opts_with 90000 90 None)
       = (Owner, Some (callerRow (env_at 0) 100 (opts_with 90000 90 None)))"
proof -
  have a: "aliveOf (env_at 0) (opts_with t 90 None) (pid row)" for t row
    by (simp add: aliveOf_def opts_with_def always_alive_def)
  have r: "\<not> recycled (opts_with t 90 None) 100 row" for t row
    by (simp add: recycled_def opts_with_def truthy_def)
  have d: "date_parse (env_at 0) (heartbeat_at row_later) = Some 100000"
    "date_parse (env_at 0) (heartbeat_at (row_epoch None)) = Some 0"
    by (simp_all add: env_at_def row_later_def row_epoch_def parse_two_def)
  have n: "nowOf (env_at 0) (opts_with t 90 None) = t" for t
    by (simp add: nowOf_def opts_with_def)
  have s: "staleOf (opts_with t 90 None) = 90" for t
    by (simp add: staleOf_def opts_with_def)
  from acquire_alive_stale_boundary [OF a [of 190000 row_later] r [of 190000 row_later]]
    acquire_alive_stale_boundary [OF a [of 189999 row_later] r [of 189999 row_later]]
    acquire_alive_stale_boundary [OF a [of 150000 row_later] r [of 150000 row_later]]
    acquire_alive_stale_boundary [OF a [of 90000 "row_epoch None"] r [of 90000 "row_epoch None"]]
  show ?thesis by (simp add: d n s secondsSince_def)
qed



text \<open>
  C5. Whenever acquire returns owner, the store holds one row afterwards, the caller's:
  its pid is the caller's pid. The statement is about every store state (no row, or one
  row) and every option, so it covers the insert into the empty store, the
  PID-recycling replacement and the takeover of a dead or stale owner.
\<close>

theorem acquire_owner_row:
  assumes "acquireWatcherRole env db p options = (Owner, db')"
  shows "db' = Some (callerRow env p options) \<and> map_option pid db' = Some p"
proof (cases db)
  case None
  with assms show ?thesis by (auto simp add: acquire_absent callerRow_def)
next
  case (Some row)
  with assms show ?thesis
    by (auto simp add: acquire_present callerRow_def split: if_splits)
qed

theorem acquire_owner_row_witness:
  "acquireWatcherRole (env_at 0) None 100 (opts_with 1000 90 None)
     = (Owner, Some (callerRow (env_at 0) 100 (opts_with 1000 90 None)))
   \<and> map_option pid (Some (callerRow (env_at 0) 100 (opts_with 1000 90 None))) = Some 100
   \<and> acquireWatcherRole (env_at 0) (Some (row_epoch None)) 100 (opts_with 200000 90 None)
     = (Owner, Some (callerRow (env_at 0) 100 (opts_with 200000 90 None)))
   \<and> map_option pid (Some (callerRow (env_at 0) 100 (opts_with 200000 90 None))) = Some 100"
proof -
  have e: "acquireWatcherRole (env_at 0) None 100 (opts_with 1000 90 None)
             = (Owner, snd (acquireWatcherRole (env_at 0) None 100 (opts_with 1000 90 None)))"
    by (simp add: acquireWatcherRole_def selectOwner_def)
  have t: "acquireWatcherRole (env_at 0) (Some (row_epoch None)) 100 (opts_with 200000 90 None)
             = (Owner, snd (acquireWatcherRole (env_at 0) (Some (row_epoch None)) 100
                              (opts_with 200000 90 None)))"
    by (simp add: acquireWatcherRole_def selectOwner_def opts_with_def always_alive_def
        row_epoch_def truthy_def toEpochMs_def env_at_def parse_two_def)
  from acquire_owner_row [OF e] acquire_owner_row [OF t] e t
  show ?thesis by simp
qed

text \<open>
  C6 as stated fails: an unparsable heartbeat text is read as the epoch (0 ms), not as
  "now", so its age is the whole number of seconds since the epoch. With now at
  1000000 ms the age is 1000 s; the pid is alive, no identifier is involved, the
  threshold is 90 > 0, and acquire returns owner and replaces the row.
\<close>

theorem unparsable_heartbeat_counterexample:
  "date_parse (env_at 0) (heartbeat_at row_garbled) = None
   \<and> aliveOf (env_at 0) (opts_with 1000000 90 None) (pid row_garbled)
   \<and> \<not> recycled (opts_with 1000000 90 None) 100 row_garbled
   \<and> 0 < staleOf (opts_with 1000000 90 None)
   \<and> heartbeatAge (env_at 0) (opts_with 1000000 90 None) row_garbled = 1000
   \<and> acquireWatcherRole (env_at 0) (Some row_garbled) 100 (opts_with 1000000 90 None)
       = (Owner, Some (callerRow (env_at 0) 100 (opts_with 1000000 90 None)))"
  by (simp add: acquire_present aliveOf_def opts_with_def always_alive_def row_garbled_def
      recycled_def truthy_def staleOf_def heartbeatAge_def nowOf_def toEpochMs_def env_at_def
      parse_two_def)

text \<open>
  C6, amended. When the stored heartbeat text is unparsable, \<open>toEpochMs\<close> gives 0 and the
  heartbeat age is the whole number of seconds from the epoch to now; so, with the
  stored pid alive and the recycling branch not applying, acquire returns reader with
  the row unchanged when that number is below staleAfterSeconds, and otherwise replaces
  the row and returns owner.
\<close>

theorem acquire_unparsable_heartbeat:
  assumes "date_parse env (heartbeat_at row) = None"
    and "aliveOf env options (pid row)"
    and "\<not> recycled options p row"
  shows "toEpochMs env (heartbeat_at row) = 0
       \<and> heartbeatAge env options row = nowOf env options div 1000
       \<and> acquireWatcherRole env (Some row) p options =
           (if nowOf env options div 1000 < staleOf options then (Reader, Some row)
            else (Owner, Some (callerRow env p options)))"
  using assms by (simp add: acquire_present heartbeatAge_def toEpochMs_def)

theorem acquire_unparsable_heartbeat_witness:
  "toEpochMs (env_at 0) (heartbeat_at row_garbled) = 0
   \<and> heartbeatAge (env_at 0) (opts_with 89999 90 None) row_garbled = 89
   \<and> acquireWatcherRole (env_at 0) (Some row_garbled) 100 (opts_with 89999 90 None)
       = (Reader, Some row_garbled)"
proof -
  have d: "date_parse (env_at 0) (heartbeat_at row_garbled) = None"
    by (simp add: env_at_def row_garbled_def parse_two_def)
  have a: "aliveOf (env_at 0) (opts_with 89999 90 None) (pid row_garbled)"
    by (simp add: aliveOf_def opts_with_def always_alive_def)
  have r: "\<not> recycled (opts_with 89999 90 None) 100 row_garbled"
    by (simp add: recycled_def opts_with_def truthy_def)
  have n: "nowOf (env_at 0) (opts_with 89999 90 None) = 89999"
    "staleOf (opts_with 89999 90 None) = 90"
    by (simp_all add: nowOf_def staleOf_def opts_with_def)
  from acquire_unparsable_heartbeat [OF d a r] show ?thesis by (simp add: n)
qed

text \<open>
  C7 as stated fails for a heartbeat later than now: its age is negative, which is below
  the threshold 0. Here the row's heartbeat is at 100000 ms, now is 0, the stored pid is
  alive, staleAfterSeconds is 0, and acquire returns reader and keeps the row.
\<close>

theorem zero_threshold_future_heartbeat_counterexample:
  "staleOf (opts_with 0 0 None) = 0
   \<and> heartbeatAge (env_at 0) (opts_with 0 0 None) row_later = - 100
   \<and> acquireWatcherRole (env_at 0) (Some row_later) 100 (opts_with 0 0 None)
       = (Reader, Some row_later)"
  by (simp add: acquire_present aliveOf_def opts_with_def always_alive_def row_later_def
      recycled_def truthy_def staleOf_def heartbeatAge_def nowOf_def toEpochMs_def env_at_def
      parse_two_def)

text \<open>
  C7, amended. With staleAfterSeconds = 0, acquire returns owner and installs the caller
  for every state of the ownership row (no row, any stored pid, any liveness result)
  whose heartbeat is not later than now; the one case left is a live stored pid, outside
  the recycling branch, whose heartbeat is later than now, where acquire returns reader.
\<close>

theorem acquire_zero_threshold:
  assumes "staleOf options = 0"
  shows "acquireWatcherRole env None p options = (Owner, Some (callerRow env p options))
       \<and> acquireWatcherRole env (Some row) p options =
           (if aliveOf env options (pid row) \<and> \<not> recycled options p row
               \<and> nowOf env options < toEpochMs env (heartbeat_at row)
            then (Reader, Some row)
            else (Owner, Some (callerRow env p options)))"
proof -
  have "(heartbeatAge env options row < 0) = (nowOf env options < toEpochMs env (heartbeat_at row))"
    unfolding heartbeatAge_def by linarith
  with assms show ?thesis by (simp add: acquire_absent acquire_present)
qed

theorem acquire_zero_threshold_witness:
  "acquireWatcherRole (env_at 0) None 100 (opts_with 100000 0 None)
     = (Owner, Some (callerRow (env_at 0) 100 (opts_with 100000 0 None)))
   \<and> acquireWatcherRole (env_at 0) (Some row_later) 100 (opts_with 100000 0 None)
     = (Owner, Some (callerRow (env_at 0) 100 (opts_with 100000 0 None)))"
proof -
  have s: "staleOf (opts_with 100000 0 None) = 0" by (simp add: staleOf_def opts_with_def)
  have n: "nowOf (env_at 0) (opts_with 100000 0 None) = 100000"
    "toEpochMs (env_at 0) (heartbeat_at row_later) = 100000"
    by (simp_all add: nowOf_def opts_with_def toEpochMs_def env_at_def row_later_def parse_two_def)
  from acquire_zero_threshold [OF s, of "env_at 0" 100 row_later] show ?thesis by (simp add: n)
qed

subsection \<open>Properties of the parse API\<close>

lemma fileFails_parseOf: "fileFails ctx options fp = (parseOf ctx options fp = None)"
  by (simp add: fileFails_def parseOf_def split: outcome.splits sum.splits)

lemma batchParseOne_parsed:
  "parsed (batchParseOne ctx options x acc) =
     (if fileFails ctx options x then parsed acc else (parsed acc)(x := parseOf ctx options x))"
  by (simp add: batchParseOne_def fileFails_def parseOf_def split: outcome.splits sum.splits)

lemma batchParseOne_failures:
  "map fst (failures (batchParseOne ctx options x acc)) =
     map fst (failures acc) @ (if fileFails ctx options x then [x] else [])"
  by (simp add: batchParseOne_def fileFails_def split: outcome.splits sum.splits)

lemma fold_batchParseOne_parsed:
  "parsed (fold (batchParseOne ctx options) xs acc) fp =
     (if fp \<in> set xs \<and> \<not> fileFails ctx options fp then parseOf ctx options fp
      else parsed acc fp)"
  by (induction xs arbitrary: acc) (auto simp add: batchParseOne_parsed)

lemma fold_batchParseOne_failures:
  "map fst (failures (fold (batchParseOne ctx options) xs acc)) =
     map fst (failures acc) @ filter (fileFails ctx options) xs"
  by (induction xs arbitrary: acc) (simp_all add: batchParseOne_failures)

lemma settled_all:
  assumes "mset settled = mset [0..<length fps]"
  shows "mset (map (\<lambda>i. fps ! i) (filter (\<lambda>i. i < length fps) settled)) = mset fps"
proof -
  from assms have "set settled = {0..<length fps}"
    by (metis mset_eq_setD set_upt)
  then have "filter (\<lambda>i. i < length fps) settled = settled"
    by (simp add: filter_id_conv)
  then have "mset (map (\<lambda>i. fps ! i) (filter (\<lambda>i. i < length fps) settled))
               = image_mset (\<lambda>i. fps ! i) (mset settled)"
    by simp
  also have "\<dots> = mset (map (\<lambda>i. fps ! i) [0..<length fps])"
    by (simp add: assms)
  also have "\<dots> = mset fps"
    by (simp add: map_nth)
  finally show ?thesis .
qed

text \<open>
  C9. On an open context, for every list of paths and every order in which the reads
  settle, \<open>batchParse\<close> returns a result: the parsed map holds exactly the paths of the
  list that do not fail, each with its parsed file; every path whose read or parse fails
  is in the failures list, once for each time it occurs in the input, and is not in the
  parsed map. No failure of a file makes the call throw.
\<close>

theorem batchParse_isolates_failures:
  assumes "\<not> closed ctx" and "mset settled = mset [0..<length fps]"
  shows "\<exists>r. batchParse ctx fps options settled = Returned r
           \<and> parsed r = (\<lambda>fp. if fp \<in> set fps then parseOf ctx options fp else None)
           \<and> dom (parsed r) = {fp \<in> set fps. \<not> fileFails ctx options fp}
           \<and> fst ` set (failures r) = {fp \<in> set fps. fileFails ctx options fp}
           \<and> mset (map fst (failures r)) = mset (filter (fileFails ctx options) fps)"
proof -
  define xs where "xs = map (\<lambda>i. fps ! i) (filter (\<lambda>i. i < length fps) settled)"
  define r where "r = fold (batchParseOne ctx options) xs \<lparr>parsed = Map.empty, failures = []\<rparr>"
  have m: "mset xs = mset fps" unfolding xs_def using assms(2) by (rule settled_all)
  then have s: "set xs = set fps" by (rule mset_eq_setD)
  have b: "batchParse ctx fps options settled = Returned r"
    using assms(1) by (simp add: batchParse_def r_def xs_def)
  have p: "parsed r = (\<lambda>fp. if fp \<in> set fps then parseOf ctx options fp else None)"
  proof
    fix fp
    show "parsed r fp = (if fp \<in> set fps then parseOf ctx options fp else None)"
      unfolding r_def by (simp add: fold_batchParseOne_parsed s fileFails_parseOf)
  qed
  have d: "dom (parsed r) = {fp \<in> set fps. \<not> fileFails ctx options fp}"
    unfolding p dom_def fileFails_parseOf by auto
  have f: "map fst (failures r) = filter (fileFails ctx options) xs"
    unfolding r_def by (simp add: fold_batchParseOne_failures)
  have "set (map fst (failures r)) = {fp \<in> set xs. fileFails ctx options fp}"
    unfolding f by simp
  then have f1: "fst ` set (failures r) = {fp \<in> set fps. fileFails ctx options fp}"
    by (simp add: s)
  have f2: "mset (map fst (failures r)) = mset (filter (fileFails ctx options) fps)"
    unfolding f mset_filter m ..
  from b p d f1 f2 show ?thesis by blast
qed

theorem batchParse_isolates_failures_witness:
  "\<not> closed (disk_ctx False)
   \<and> mset [2, 0, 1] = mset [0..<length [''a.ts'', ''b.ts'', ''c.ts'']]
   \<and> (\<exists>r. batchParse (disk_ctx False) [''a.ts'', ''b.ts'', ''c.ts''] None [2, 0, 1] = Returned r
         \<and> parsed r ''a.ts'' = Some ''export const A = 1;''
         \<and> parsed r ''b.ts'' = None \<and> parsed r ''c.ts'' = None
         \<and> mset (map fst (failures r)) = mset [''b.ts'', ''c.ts''])"
proof -
  have c: "\<not> closed (disk_ctx False)" by (simp add: disk_ctx_def)
  have m: "mset [2, 0, 1] = mset [0..<length [''a.ts'', ''b.ts'', ''c.ts'']]"
    by (simp add: upt_rec)
  have pa: "parseOf (disk_ctx False) None ''a.ts'' = Some ''export const A = 1;''"
    by (simp add: parseOf_def disk_ctx_def disk_read_def disk_parse_def)
  have pb: "parseOf (disk_ctx False) None ''b.ts'' = None"
    by (simp add: parseOf_def disk_ctx_def disk_read_def disk_parse_def)
  have pc: "parseOf (disk_ctx False) None ''c.ts'' = None"
    by (simp add: parseOf_def disk_ctx_def disk_read_def disk_parse_def)
  from batchParse_isolates_failures [OF c m, of None]
  obtain r where b: "batchParse (disk_ctx False) [''a.ts'', ''b.ts'', ''c.ts''] None [2, 0, 1] = Returned r"
    and p: "parsed r = (\<lambda>fp. if fp \<in> set [''a.ts'', ''b.ts'', ''c.ts'']
                             then parseOf (disk_ctx False) None fp else None)"
    and f: "mset (map fst (failures r))
              = mset (filter (fileFails (disk_ctx False) None) [''a.ts'', ''b.ts'', ''c.ts''])"
    by blast
  have f': "mset (map fst (failures r)) = mset [''b.ts'', ''c.ts'']"
    unfolding f by (simp add: fileFails_parseOf pa pb pc)
  have "parsed r ''a.ts'' = Some ''export const A = 1;''"
    "parsed r ''b.ts'' = None" "parsed r ''c.ts'' = None"
    unfolding p by (simp_all add: pa pb pc)
  with b f' c m show ?thesis by blast
qed

text \<open>
  C8 as stated fails for \<open>getParsedAst\<close>: on a closed context it returns \<open>undefined\<close>,
  a normal return, and throws nothing.
\<close>

theorem getParsedAst_closed_counterexample:
  "closed (disk_ctx True)
   \<and> getParsedAst (disk_ctx True) ''a.ts'' = Returned (None, disk_ctx True)
   \<and> getParsedAst (disk_ctx True) ''a.ts'' \<noteq> Threw closedError"
  by (simp add: getParsedAst_def disk_ctx_def)

text \<open>
  C8, amended. On a closed context \<open>parseSource\<close> and \<open>batchParse\<close> throw the typed
  closed error for every input, and \<open>getParsedAst\<close> returns \<open>undefined\<close> for every path,
  without reading the cache.
\<close>

theorem closed_context_operations:
  assumes "closed ctx"
  shows "parseSource ctx fp sourceText options = Threw closedError
       \<and> batchParse ctx fps options settled = Threw closedError
       \<and> getParsedAst ctx fp = Returned (None, ctx)"
  using assms by (simp add: parseSource_def batchParse_def getParsedAst_def)

theorem closed_context_operations_witness:
  "closed (disk_ctx True)
   \<and> parseSource (disk_ctx True) ''a.ts'' ''export const A = 1;'' None
       = Threw (ThrownError (GildashError ''closed'' ''Gildash: instance is closed''))
   \<and> batchParse (disk_ctx True) [''a.ts''] None [0]
       = Threw (ThrownError (GildashError ''closed'' ''Gildash: instance is closed''))
   \<and> getParsedAst (disk_ctx True) ''a.ts'' = Returned (None, disk_ctx True)"
proof -
  have c: "closed (disk_ctx True)" by (simp add: disk_ctx_def)
  from closed_context_operations [OF c] show ?thesis using c by (simp add: closedError_def)
qed

subsection \<open>Properties of the pattern search\<close>

text \<open>
  C10. When the \<open>filePaths\<close> option is the empty array, \<open>patternSearch\<close> returns the empty
  list of matches and makes no call to \<open>findInFiles\<close>, whatever the engine and the
  pattern are.
\<close>

theorem patternSearch_no_paths:
  assumes "filePaths opts = []"
  shows "patternSearch findInFiles opts = (Returned [], [])"
  using assms by (simp add: patternSearch_def)

theorem patternSearch_no_paths_witness:
  "filePaths \<lparr>pattern = ''console.log($$$)'', filePaths = []\<rparr> = []
   \<and> patternSearch one_hit \<lparr>pattern = ''console.log($$$)'', filePaths = []\<rparr> = (Returned [], [])
   \<and> snd (patternSearch one_hit \<lparr>pattern = ''console.log($$$)'', filePaths = [''/p'']\<rparr>)
       = [\<lparr>paths = [''/p''], rule_pattern = ''console.log($$$)''\<rparr>]"
proof -
  have e: "filePaths \<lparr>pattern = ''console.log($$$)'', filePaths = []\<rparr> = []" by simp
  from patternSearch_no_paths [OF e, of one_hit] show ?thesis
    by (simp add: patternSearch_def one_hit_def)
qed

subsection \<open>Properties of the dependency graph\<close>

lemma edges_of_Nil: "edges_of [] = {}"
  by (simp add: edges_of_def)

lemma edges_of_Cons: "edges_of ((k, vs) # m) = Pair k ` set vs \<union> edges_of m"
  by (simp add: edges_of_def)

lemma edges_of_iff: "(a, b) \<in> edges_of m \<longleftrightarrow> (\<exists>vs. (a, vs) \<in> set m \<and> b \<in> set vs)"
  by (induction m) (auto simp add: edges_of_Nil edges_of_Cons)

lemma edges_of_add_to: "edges_of (add_to k v m) = insert (k, v) (edges_of m)"
  by (induction k v m rule: add_to.induct) (auto simp add: edges_of_Nil edges_of_Cons)

lemma keys_add_to: "fst ` set (add_to k v m) = insert k (fst ` set m)"
  by (induction k v m rule: add_to.induct) auto

lemma distinct_add_to: "distinct (map fst m) \<Longrightarrow> distinct (map fst (add_to k v m))"
  by (induction k v m rule: add_to.induct) (auto simp add: keys_add_to)

lemma addEdge_edges:
  "edges_of (adjacencyList (addEdge e g)) = insert e (edges_of (adjacencyList g))"
  "edges_of (reverseAdjacencyList (addEdge e g))
     = insert (snd e, fst e) (edges_of (reverseAdjacencyList g))"
  by (simp_all add: addEdge_def edges_of_add_to)

lemma addEdge_wf: "wf_graph g \<Longrightarrow> wf_graph (addEdge e g)"
  unfolding wf_graph_def addEdge_edges
  by (cases e) (auto simp add: addEdge_def distinct_add_to)

lemma fold_addEdge_edges:
  "edges_of (adjacencyList (fold addEdge es g)) = set es \<union> edges_of (adjacencyList g)"
  by (induction es arbitrary: g) (auto simp add: addEdge_edges)

lemma fold_addEdge_wf: "wf_graph g \<Longrightarrow> wf_graph (fold addEdge es g)"
  by (induction es arbitrary: g) (simp_all add: addEdge_wf)

lemma emptyGraph_wf: "wf_graph emptyGraph"
  by (simp add: wf_graph_def emptyGraph_def edges_of_Nil)

lemma build_edges: "edges_of (adjacencyList (build opts)) = endpoints ` set (loadRelations opts)"
proof -
  have "edges_of (adjacencyList emptyGraph) = {}"
    by (simp add: emptyGraph_def edges_of_Nil)
  then show ?thesis
    unfolding build_def fold_addEdge_edges by simp
qed

lemma build_wf: "wf_graph (build opts)"
  unfolding build_def by (rule fold_addEdge_wf) (rule emptyGraph_wf)

lemma Collect_Un_split: "{e \<in> A \<union> B. P e} = {e \<in> A. P e} \<union> {e \<in> B. P e}"
  by blast

lemma Collect_Pair_fst: "{e \<in> Pair k ` S. fst e \<noteq> f} = (if k = f then {} else Pair k ` S)"
  by auto

lemma Collect_Pair_snd: "{e \<in> Pair k ` S. snd e \<noteq> f} = Pair k ` (S - {f})"
proof (rule set_eqI)
  fix e :: "'a \<times> 'b"
  obtain a b where e: "e = (a, b)" by (cases e)
  show "e \<in> {e \<in> Pair k ` S. snd e \<noteq> f} \<longleftrightarrow> e \<in> Pair k ` (S - {f})"
    unfolding e by (simp add: image_iff)
qed

lemma clear_key_edges:
  "edges_of (map (\<lambda>(k, vs). if k = f then (k, []) else (k, vs)) m)
     = {e \<in> edges_of m. fst e \<noteq> f}"
proof (induction m)
  case Nil
  show ?case by (simp add: edges_of_Nil)
next
  case (Cons p m)
  let ?F = "\<lambda>(k, vs). if k = f then (k, []) else (k, vs)"
  obtain k vs where p: "p = (k, vs)" by (cases p)
  have "edges_of (map ?F ((k, vs) # m))
          = (if k = f then {} else Pair k ` set vs) \<union> edges_of (map ?F m)"
    by (simp add: edges_of_Cons)
  also have "\<dots> = {e \<in> Pair k ` set vs. fst e \<noteq> f} \<union> {e \<in> edges_of m. fst e \<noteq> f}"
    by (simp only: Cons Collect_Pair_fst)
  also have "\<dots> = {e \<in> Pair k ` set vs \<union> edges_of m. fst e \<noteq> f}"
    by (simp only: Collect_Un_split)
  also have "\<dots> = {e \<in> edges_of ((k, vs) # m). fst e \<noteq> f}"
    by (simp only: edges_of_Cons)
  finally show ?case unfolding p .
qed

lemma drop_member_edges:
  "edges_of (map (\<lambda>(k, vs). (k, removeAll f vs)) m) = {e \<in> edges_of m. snd e \<noteq> f}"
proof (induction m)
  case Nil
  show ?case by (simp add: edges_of_Nil)
next
  case (Cons p m)
  let ?F = "\<lambda>(k, vs). (k, removeAll f vs)"
  obtain k vs where p: "p = (k, vs)" by (cases p)
  have "edges_of (map ?F ((k, vs) # m)) = Pair k ` (set vs - {f}) \<union> edges_of (map ?F m)"
    by (simp add: edges_of_Cons)
  also have "\<dots> = {e \<in> Pair k ` set vs. snd e \<noteq> f} \<union> {e \<in> edges_of m. snd e \<noteq> f}"
    by (simp only: Cons Collect_Pair_snd)
  also have "\<dots> = {e \<in> Pair k ` set vs \<union> edges_of m. snd e \<noteq> f}"
    by (simp only: Collect_Un_split)
  also have "\<dots> = {e \<in> edges_of ((k, vs) # m). snd e \<noteq> f}"
    by (simp only: edges_of_Cons)
  finally show ?case unfolding p .
qed

lemma removeOutgoing_edges:
  "edges_of (adjacencyList (removeOutgoing f g))
     = {e \<in> edges_of (adjacencyList g). fst e \<noteq> f}"
  "edges_of (reverseAdjacencyList (removeOutgoing f g))
     = {e \<in> edges_of (reverseAdjacencyList g). snd e \<noteq> f}"
  by (simp_all add: removeOutgoing_def clear_key_edges drop_member_edges)

lemma removeOutgoing_wf: "wf_graph g \<Longrightarrow> wf_graph (removeOutgoing f g)"
proof -
  have k: "map (fst \<circ> (\<lambda>(k, vs). if k = f then (k, []) else (k, vs))) m = map fst m"
    for m :: adjacency
    by (induction m) auto
  assume "wf_graph g"
  then show ?thesis
    unfolding wf_graph_def removeOutgoing_edges
    by (auto simp add: removeOutgoing_def k)
qed

lemma fold_removeOutgoing_edges:
  "edges_of (adjacencyList (fold removeOutgoing fs g))
     = {e \<in> edges_of (adjacencyList g). fst e \<notin> set fs}"
  by (induction fs arbitrary: g) (auto simp add: removeOutgoing_edges)

lemma fold_removeOutgoing_wf: "wf_graph g \<Longrightarrow> wf_graph (fold removeOutgoing fs g)"
  by (induction fs arbitrary: g) (simp_all add: removeOutgoing_wf)

lemma fold_insert_edges:
  "edges_of (adjacencyList (fold (\<lambda>f. fold addEdge (relationsFor f)) fs g))
     = (\<Union>f\<in>set fs. set (relationsFor f)) \<union> edges_of (adjacencyList g)"
  by (induction fs arbitrary: g) (auto simp add: fold_addEdge_edges)

lemma fold_insert_wf:
  "wf_graph g \<Longrightarrow> wf_graph (fold (\<lambda>f. fold addEdge (relationsFor f)) fs g)"
  by (induction fs arbitrary: g) (simp_all add: fold_addEdge_wf)

lemma patchFiles_edges:
  "edges_of (adjacencyList (patchFiles changed deleted relationsFor g))
     = (\<Union>f\<in>set changed. set (relationsFor f))
       \<union> {e \<in> edges_of (adjacencyList g). fst e \<notin> set changed \<union> set deleted}"
  by (simp add: patchFiles_def fold_insert_edges fold_removeOutgoing_edges)

lemma patchFiles_wf: "wf_graph g \<Longrightarrow> wf_graph (patchFiles changed deleted relationsFor g)"
  unfolding patchFiles_def by (intro fold_insert_wf fold_removeOutgoing_wf)

text \<open>
  C2. Take a graph built from any relation set, and any lists of changed and deleted
  files that cover it: every source file of that relation set is changed or deleted. Let
  the relations that \<open>relationsFor\<close> serves for the changed files be, as edges, the
  full relation set after the change (deleted files have no relations left). Then
  \<open>patchFiles\<close> yields forward and reverse maps with the same edges as a fresh
  \<open>build()\<close> over that relation set.
\<close>

theorem patchFiles_equals_build:
  assumes "srcFilePath ` set (loadRelations old) \<subseteq> set changed \<union> set deleted"
    and "(\<Union>f\<in>set changed. set (relationsFor f)) = endpoints ` set (loadRelations new)"
  shows "edges_of (adjacencyList (patchFiles changed deleted relationsFor (build old)))
           = edges_of (adjacencyList (build new))
       \<and> edges_of (reverseAdjacencyList (patchFiles changed deleted relationsFor (build old)))
           = edges_of (reverseAdjacencyList (build new))"
proof -
  have "fst e \<in> set changed \<union> set deleted" if "e \<in> endpoints ` set (loadRelations old)" for e
  proof -
    from that obtain r where "r \<in> set (loadRelations old)" and "e = endpoints r" by blast
    then have "fst e \<in> srcFilePath ` set (loadRelations old)" by (simp add: endpoints_def)
    with assms(1) show ?thesis by blast
  qed
  then have "{e \<in> endpoints ` set (loadRelations old). fst e \<notin> set changed \<union> set deleted} = {}"
    by blast
  then have f: "edges_of (adjacencyList (patchFiles changed deleted relationsFor (build old)))
                  = edges_of (adjacencyList (build new))"
    by (simp only: patchFiles_edges build_edges assms(2) Un_empty_right)
  have "wf_graph (patchFiles changed deleted relationsFor (build old))" "wf_graph (build new)"
    by (simp_all add: patchFiles_wf build_wf)
  with f show ?thesis by (simp add: wf_graph_def)
qed

theorem patchFiles_equals_build_witness:
  "srcFilePath ` set (loadRelations (opts_of [imp ''a.ts'' ''b.ts'', imp ''b.ts'' ''c.ts'']))
       \<subseteq> set [''a.ts''] \<union> set [''b.ts'']
   \<and> (\<Union>f\<in>set [''a.ts'']. set (rels_after f))
       = endpoints ` set (loadRelations (opts_of [imp ''a.ts'' ''c.ts'']))
   \<and> edges_of (adjacencyList (patchFiles [''a.ts''] [''b.ts''] rels_after
         (build (opts_of [imp ''a.ts'' ''b.ts'', imp ''b.ts'' ''c.ts'']))))
       = edges_of (adjacencyList (build (opts_of [imp ''a.ts'' ''c.ts''])))
   \<and> edges_of (adjacencyList (build (opts_of [imp ''a.ts'' ''c.ts''])))
       = {(''a.ts'', ''c.ts'')}"
proof -
  have l1: "loadRelations (opts_of [imp ''a.ts'' ''b.ts'', imp ''b.ts'' ''c.ts''])
              = [imp ''a.ts'' ''b.ts'', imp ''b.ts'' ''c.ts'']"
    by (simp add: loadRelations_def opts_of_def repo_of_def imp_def)
  have l2: "loadRelations (opts_of [imp ''a.ts'' ''c.ts'']) = [imp ''a.ts'' ''c.ts'']"
    by (simp add: loadRelations_def opts_of_def repo_of_def imp_def)
  have h1: "srcFilePath ` set (loadRelations (opts_of [imp ''a.ts'' ''b.ts'', imp ''b.ts'' ''c.ts'']))
              \<subseteq> set [''a.ts''] \<union> set [''b.ts'']"
    unfolding l1 by (simp add: imp_def)
  have h2: "(\<Union>f\<in>set [''a.ts'']. set (rels_after f))
              = endpoints ` set (loadRelations (opts_of [imp ''a.ts'' ''c.ts'']))"
    unfolding l2 by (simp add: imp_def rels_after_def endpoints_def)
  have e: "edges_of (adjacencyList (build (opts_of [imp ''a.ts'' ''c.ts''])))
             = {(''a.ts'', ''c.ts'')}"
    unfolding build_edges l2 by (simp add: imp_def endpoints_def)
  from patchFiles_equals_build [OF h1 h2] h1 h2 e show ?thesis by simp
qed

lemma adj_get_edges:
  assumes "distinct (map fst m)"
  shows "set (adj_get m v) = {w. (v, w) \<in> edges_of m}"
proof (cases "map_of m v")
  case None
  then have "v \<notin> fst ` set m" by (simp add: map_of_eq_None_iff)
  then have "\<forall>vs. (v, vs) \<notin> set m" by force
  with None show ?thesis by (simp add: adj_get_def edges_of_iff)
next
  case (Some vs)
  have "(v, us) \<in> set m \<longleftrightarrow> us = vs" for us
  proof -
    have "(v, us) \<in> set m \<longleftrightarrow> map_of m v = Some us"
      using assms by (rule map_of_eq_Some_iff [symmetric])
    with Some show ?thesis by auto
  qed
  with Some show ?thesis by (simp add: adj_get_def edges_of_iff)
qed

lemma nodes_set: "set (nodes m) = fst ` set m \<union> (\<Union>(k, vs)\<in>set m. set vs)"
  by (induction m) (auto simp add: nodes_def)

lemma edge_nodes:
  assumes "(v, w) \<in> edges_of m"
  shows "v \<in> set (nodes m)" and "w \<in> set (nodes m)"
proof -
  from assms obtain vs where "(v, vs) \<in> set m" and "w \<in> set vs"
    by (auto simp add: edges_of_iff)
  then show "v \<in> set (nodes m)" and "w \<in> set (nodes m)"
    unfolding nodes_set by force+
qed

lemma distinct_nodes: "distinct (nodes m)"
  by (simp add: nodes_def)

lemma reaches_rtrancl: "reaches m v w \<longleftrightarrow> (v, w) \<in> (edges_of m)\<^sup>*"
  unfolding reaches_def by (auto simp add: rtrancl_eq_or_trancl)

lemma restrict_cycle:
  assumes "(a, b) \<in> R\<^sup>+" and "(b, a) \<in> R\<^sup>*"
    and S: "\<And>x. (a, x) \<in> R\<^sup>* \<Longrightarrow> (x, a) \<in> R\<^sup>* \<Longrightarrow> x \<in> S"
  shows "(a, b) \<in> (R \<inter> S \<times> S)\<^sup>+"
  using assms(1,2)
proof (induction rule: trancl_induct)
  case (base y)
  have "a \<in> S" by (rule S) simp_all
  moreover have "y \<in> S" using base by (intro S) auto
  ultimately show ?case using base by auto
next
  case (step y z)
  have ya: "(y, a) \<in> R\<^sup>*"
    using step.hyps(2) step.prems by (rule converse_rtrancl_into_rtrancl)
  have "y \<in> S" using step.hyps(1) ya by (intro S) auto
  moreover have "z \<in> S"
  proof (rule S)
    from step.hyps(1,2) have "(a, z) \<in> R\<^sup>+" by (rule trancl_into_trancl)
    then show "(a, z) \<in> R\<^sup>*" by (rule trancl_into_rtrancl)
    show "(z, a) \<in> R\<^sup>*" by (rule step.prems)
  qed
  ultimately have "(y, z) \<in> R \<inter> S \<times> S" using step.hyps(2) by simp
  with step.IH [OF ya] show ?case by (rule trancl_into_trancl)
qed

lemma concat_map_nonempty: "x \<in> set xs \<Longrightarrow> f x \<noteq> [] \<Longrightarrow> concat (map f xs) \<noteq> []"
  by (induction xs) auto

lemma circuitsFrom_complete:
  assumes dk: "distinct (map fst m)" and sub: "\<And>x y. r x y \<Longrightarrow> (x, y) \<in> edges_of m"
  shows "rtrancl_path r v xs s \<Longrightarrow> xs \<noteq> [] \<Longrightarrow> distinct xs \<Longrightarrow> set (butlast xs) \<subseteq> set avail
           \<Longrightarrow> circuitsFrom m s avail path v \<noteq> []"
proof (induction arbitrary: avail path rule: rtrancl_path.induct)
  case (base x)
  then show ?case by simp
next
  case (step x y ys z)
  from step.hyps(1) have "(x, y) \<in> edges_of m" by (rule sub)
  then have y: "y \<in> set (adj_get m x)" by (simp add: adj_get_edges [OF dk])
  let ?f = "\<lambda>w. if w = z then [rev (x # path)]
                  else if w \<in> set avail then circuitsFrom m z (removeAll w avail) (x # path) w
                  else []"
  have "?f y \<noteq> []"
  proof (cases "y = z")
    case True
    then show ?thesis by simp
  next
    case False
    from step.hyps(2) False have ne: "ys \<noteq> []" by (auto elim: rtrancl_path.cases)
    with step.prems(3) have ya: "y \<in> set avail" by simp
    from step.prems(2) have d: "distinct ys" and yn: "y \<notin> set ys" by simp_all
    have "set (butlast ys) \<subseteq> set (removeAll y avail)"
    proof
      fix a assume a: "a \<in> set (butlast ys)"
      then have "a \<in> set ys" by (rule in_set_butlastD)
      with yn have "a \<noteq> y" by blast
      moreover from a ne step.prems(3) have "a \<in> set avail" by auto
      ultimately show "a \<in> set (removeAll y avail)" by simp
    qed
    with ne d have "circuitsFrom m z (removeAll y avail) (x # path) y \<noteq> []"
      by (rule step.IH)
    with False ya show ?thesis by simp
  qed
  with y have "concat (map ?f (adj_get m x)) \<noteq> []" by (rule concat_map_nonempty)
  then show ?case by (subst circuitsFrom.simps)
qed


lemma circuitsFrom_start:
  assumes dk: "distinct (map fst m)" and s: "s \<notin> set rest"
    and cyc: "(s, s) \<in> (edges_of m \<inter> set (s # rest) \<times> set (s # rest))\<^sup>+"
  shows "circuitsFrom m s rest [] s \<noteq> []"
proof -
  define R where "R = edges_of m \<inter> set (s # rest) \<times> set (s # rest)"
  define r where "r = (\<lambda>x y. (x, y) \<in> R)"
  from cyc obtain w where sw: "(s, w) \<in> R" and ws: "(w, s) \<in> R\<^sup>*"
    unfolding R_def by (blast dest: tranclD)
  from ws have "r\<^sup>*\<^sup>* w s" unfolding r_def by (simp add: rtranclp_rtrancl_eq)
  then obtain xs where "rtrancl_path r w xs s" by (auto simp add: rtranclp_eq_rtrancl_path)
  then obtain ys where p: "rtrancl_path r w ys s" and d: "distinct (w # ys)"
    by (rule rtrancl_path_distinct)
  from sw p have path: "rtrancl_path r s (w # ys) s"
    unfolding r_def by (intro rtrancl_path.step) simp_all
  have l: "last (w # ys) = s" using path by (rule rtrancl_path_last) simp
  have "set (butlast (w # ys)) \<subseteq> set rest"
  proof
    fix a assume a: "a \<in> set (butlast (w # ys))"
    then have m: "a \<in> set (w # ys)" by (rule in_set_butlastD)
    with path have "Rangep r a" by (rule rtrancl_path_Range)
    then have "a \<in> set (s # rest)" unfolding r_def R_def by auto
    moreover have "a \<noteq> s"
    proof
      assume "a = s"
      with a l have "last (w # ys) \<in> set (butlast (w # ys))" by simp
      moreover have "distinct (butlast (w # ys) @ [last (w # ys)])"
        using d by (simp only: append_butlast_last_id [OF list.distinct(2)])
      ultimately show False by simp
    qed
    ultimately show "a \<in> set rest" by simp
  qed
  moreover have "(x, y) \<in> edges_of m" if "r x y" for x y
    using that unfolding r_def R_def by simp
  ultimately show ?thesis
    using dk path d by (intro circuitsFrom_complete [where r = r and xs = "w # ys"]) simp_all
qed

lemma circuitsOf_complete:
  assumes dk: "distinct (map fst m)"
  shows "distinct c \<Longrightarrow> (u, u) \<in> (edges_of m \<inter> set c \<times> set c)\<^sup>+ \<Longrightarrow> circuitsOf m c \<noteq> []"
proof (induction c)
  case Nil
  then show ?case by simp
next
  case (Cons s rest)
  define R where "R = edges_of m \<inter> set (s # rest) \<times> set (s # rest)"
  from Cons.prems have s: "s \<notin> set rest" and dr: "distinct rest" by simp_all
  from Cons.prems have uu: "(u, u) \<in> R\<^sup>+" by (simp add: R_def)
  show ?case
  proof (cases "(s, s) \<in> R\<^sup>+")
    case True
    with dk s have "circuitsFrom m s rest [] s \<noteq> []"
      unfolding R_def by (intro circuitsFrom_start)
    then show ?thesis by simp
  next
    case False
    have inC: "x \<in> set (s # rest)" if "(x, y) \<in> R\<^sup>+" for x y
    proof -
      from that obtain z where "(x, z) \<in> R" by (blast dest: tranclD)
      then show ?thesis unfolding R_def by blast
    qed
    have S: "x \<in> set rest" if ux: "(u, x) \<in> R\<^sup>*" and xu: "(x, u) \<in> R\<^sup>*" for x
    proof -
      from xu uu have "(x, u) \<in> R\<^sup>+" by (rule rtrancl_trancl_trancl)
      from this ux have xx: "(x, x) \<in> R\<^sup>+" by (rule trancl_rtrancl_trancl)
      then have "x \<in> set (s # rest)" by (rule inC)
      moreover from xx False have "x \<noteq> s" by blast
      ultimately show ?thesis by simp
    qed
    from uu have "(u, u) \<in> R\<^sup>*" by (rule trancl_into_rtrancl)
    with uu have "(u, u) \<in> (R \<inter> set rest \<times> set rest)\<^sup>+"
      using S by (rule restrict_cycle)
    moreover have "R \<inter> set rest \<times> set rest = edges_of m \<inter> set rest \<times> set rest"
      unfolding R_def by auto
    ultimately have "(u, u) \<in> (edges_of m \<inter> set rest \<times> set rest)\<^sup>+" by simp
    with dr have "circuitsOf m rest \<noteq> []" by (rule Cons.IH)
    then show ?thesis by simp
  qed
qed


lemma component_set:
  "set (component m v) = {w \<in> set (nodes m). (v, w) \<in> (edges_of m)\<^sup>* \<and> (w, v) \<in> (edges_of m)\<^sup>*}"
  by (simp add: component_def reaches_rtrancl)

lemma sccs_set: "set (sccs m) = component m ` set (nodes m)"
  by (simp add: sccs_def)

lemma trancl_source_node:
  assumes "(x, y) \<in> (edges_of m)\<^sup>+"
  shows "x \<in> set (nodes m)"
proof -
  from assms obtain z where "(x, z) \<in> edges_of m" by (blast dest: tranclD)
  then show ?thesis by (rule edge_nodes)
qed

lemma component_connected:
  assumes a: "a \<in> set (component m v)" and b: "b \<in> set (component m v)" and ab: "a \<noteq> b"
  shows "(a, b) \<in> (edges_of m \<inter> set (component m v) \<times> set (component m v))\<^sup>+"
proof -
  let ?E = "edges_of m"
  from a have av: "(a, v) \<in> ?E\<^sup>*" and va: "(v, a) \<in> ?E\<^sup>*" and an: "a \<in> set (nodes m)"
    by (simp_all add: component_set)
  from b have bv: "(b, v) \<in> ?E\<^sup>*" and vb: "(v, b) \<in> ?E\<^sup>*"
    by (simp_all add: component_set)
  from av vb have "(a, b) \<in> ?E\<^sup>*" by (rule rtrancl_trans)
  with ab have ab': "(a, b) \<in> ?E\<^sup>+" by (simp add: rtrancl_eq_or_trancl)
  from bv va have ba: "(b, a) \<in> ?E\<^sup>*" by (rule rtrancl_trans)
  have "x \<in> set (component m v)" if ax: "(a, x) \<in> ?E\<^sup>*" and xa: "(x, a) \<in> ?E\<^sup>*" for x
  proof -
    have "x \<in> set (nodes m)"
    proof (cases "x = a")
      case True
      with an show ?thesis by simp
    next
      case False
      with xa have "(x, a) \<in> ?E\<^sup>+" by (simp add: rtrancl_eq_or_trancl)
      then show ?thesis by (rule trancl_source_node)
    qed
    moreover from va ax have "(v, x) \<in> ?E\<^sup>*" by (rule rtrancl_trans)
    moreover from xa av have "(x, v) \<in> ?E\<^sup>*" by (rule rtrancl_trans)
    ultimately show ?thesis by (simp add: component_set)
  qed
  with ab' ba show ?thesis by (rule restrict_cycle)
qed

lemma two_elements:
  assumes "1 < length c" and "distinct c"
  obtains a b where "a \<in> set c" and "b \<in> set c" and "a \<noteq> b"
proof -
  from assms(1) obtain a b rest where c: "c = a # b # rest"
    by (cases c; cases "tl c") auto
  with assms(2) have "a \<noteq> b" by auto
  with c that show ?thesis by auto
qed

lemma nontrivial_component_cycle:
  assumes dk: "distinct (map fst m)" and nt: "nontrivial m (component m v)"
  shows "\<exists>u. (u, u) \<in> (edges_of m \<inter> set (component m v) \<times> set (component m v))\<^sup>+"
proof -
  let ?c = "component m v"
  from nt consider "1 < length ?c" | x where "x \<in> set ?c" and "x \<in> set (adj_get m x)"
    by (auto simp add: nontrivial_def list_ex_iff)
  then show ?thesis
  proof cases
    case 1
    have "distinct ?c" by (simp add: component_def distinct_nodes)
    with 1 obtain a b where a: "a \<in> set ?c" and b: "b \<in> set ?c" and ab: "a \<noteq> b"
      by (rule two_elements)
    from a b ab have "(a, b) \<in> (edges_of m \<inter> set ?c \<times> set ?c)\<^sup>+"
      by (rule component_connected)
    moreover from b a ab [symmetric] have "(b, a) \<in> (edges_of m \<inter> set ?c \<times> set ?c)\<^sup>+"
      by (rule component_connected)
    ultimately have "(a, a) \<in> (edges_of m \<inter> set ?c \<times> set ?c)\<^sup>+" by (rule trancl_trans)
    then show ?thesis ..
  next
    case 2
    from 2(2) have "(x, x) \<in> edges_of m" by (simp add: adj_get_edges [OF dk])
    with 2(1) have "(x, x) \<in> edges_of m \<inter> set ?c \<times> set ?c" by simp
    then have "(x, x) \<in> (edges_of m \<inter> set ?c \<times> set ?c)\<^sup>+" by (rule r_into_trancl)
    then show ?thesis ..
  qed
qed

lemma nontrivial_component_circuits:
  assumes "distinct (map fst m)" and "nontrivial m (component m v)"
  shows "circuitsOf m (component m v) \<noteq> []"
proof -
  from assms obtain u
    where "(u, u) \<in> (edges_of m \<inter> set (component m v) \<times> set (component m v))\<^sup>+"
    by (blast dest: nontrivial_component_cycle)
  moreover have "distinct (component m v)" by (simp add: component_def distinct_nodes)
  ultimately show ?thesis using assms(1) by (intro circuitsOf_complete)
qed

lemma cyclePaths_nonempty_iff:
  "cyclePaths g None \<noteq> []
     \<longleftrightarrow> (\<exists>c\<in>set (sccs (adjacencyList g)).
            nontrivial (adjacencyList g) c \<and> circuitsOf (adjacencyList g) c \<noteq> [])"
  by (auto simp add: cyclePaths_def Let_def)

lemma hasSelfLoop_iff:
  assumes "distinct (map fst m)"
  shows "hasSelfLoop m \<longleftrightarrow> (\<exists>x. x \<in> set (adj_get m x))"
proof -
  have "hasSelfLoop m \<longleftrightarrow> (\<exists>x. (x, x) \<in> edges_of m)"
    by (auto simp add: hasSelfLoop_def list_ex_iff edges_of_iff)
  then show ?thesis by (simp add: adj_get_edges [OF assms])
qed

lemma hasCycle_iff_cyclePaths:
  assumes dk: "distinct (map fst (adjacencyList g))"
  shows "hasCycle g \<longleftrightarrow> cyclePaths g None \<noteq> []"
proof
  let ?m = "adjacencyList g"
  assume "hasCycle g"
  then consider c where "c \<in> set (sccs ?m)" and "1 < length c"
    | x where "x \<in> set (adj_get ?m x)"
    by (auto simp add: hasCycle_def list_ex_iff hasSelfLoop_iff [OF dk])
  then obtain v where v: "v \<in> set (nodes ?m)" and nt: "nontrivial ?m (component ?m v)"
  proof cases
    case 1
    then show ?thesis using that by (auto simp add: sccs_set nontrivial_def)
  next
    case 2
    then have e: "(x, x) \<in> edges_of ?m" by (simp add: adj_get_edges [OF dk])
    then have n: "x \<in> set (nodes ?m)" by (rule edge_nodes)
    then have "x \<in> set (component ?m x)" by (simp add: component_set)
    with 2 have "nontrivial ?m (component ?m x)"
      by (auto simp add: nontrivial_def list_ex_iff)
    with n show ?thesis by (rule that)
  qed
  from dk nt have "circuitsOf ?m (component ?m v) \<noteq> []"
    by (rule nontrivial_component_circuits)
  with v nt show "cyclePaths g None \<noteq> []"
    unfolding cyclePaths_nonempty_iff sccs_set by blast
next
  let ?m = "adjacencyList g"
  assume "cyclePaths g None \<noteq> []"
  then obtain c where c: "c \<in> set (sccs ?m)" and nt: "nontrivial ?m c"
    unfolding cyclePaths_nonempty_iff by blast
  from nt consider "1 < length c" | x where "x \<in> set (adj_get ?m x)"
    by (auto simp add: nontrivial_def list_ex_iff)
  then show "hasCycle g"
  proof cases
    case 1
    with c show ?thesis by (auto simp add: hasCycle_def list_ex_iff)
  next
    case 2
    then show ?thesis by (auto simp add: hasCycle_def hasSelfLoop_iff [OF dk])
  qed
qed

text \<open>Every path that \<open>cyclePaths\<close> reports is a simple cycle of the graph.\<close>

lemma in_concat_mapE:
  assumes "p \<in> set (concat (map f xs))"
  obtains w where "w \<in> set xs" and "p \<in> set (f w)"
  using assms by auto

lemma circuitsFrom_sound:
  "p \<in> set (circuitsFrom m s avail path v)
     \<Longrightarrow> distinct (map fst m)
     \<Longrightarrow> successively (\<lambda>a b. (a, b) \<in> edges_of m) (rev (v # path))
     \<Longrightarrow> distinct (v # path) \<Longrightarrow> set (v # path) \<inter> set avail = {}
     \<Longrightarrow> last (v # path) = s
     \<Longrightarrow> simple_cycle m p \<and> hd p = s"
proof (induction m s avail path v rule: circuitsFrom.induct)
  case (1 m s avail path v)
  let ?E = "\<lambda>a b. (a, b) \<in> edges_of m"
  let ?f = "\<lambda>w. if w = s then [rev (v # path)]
                  else if w \<in> set avail then circuitsFrom m s (removeAll w avail) (v # path) w
                  else []"
  note dk = "1.prems"(2)
  from "1.prems"(1) have "p \<in> set (concat (map ?f (adj_get m v)))"
    by (subst (asm) circuitsFrom.simps)
  then obtain w where w: "w \<in> set (adj_get m v)" and p: "p \<in> set (?f w)"
    by (rule in_concat_mapE)
  from w have vw: "(v, w) \<in> edges_of m" by (simp add: adj_get_edges [OF dk])
  show ?case
  proof (cases "w = s")
    case True
    with p have pe: "p = rev (v # path)" by simp
    have "hd (rev (v # path)) = s" using "1.prems"(6) by (simp only: hd_rev)
    moreover have "last (rev (v # path)) = v" by simp
    ultimately show ?thesis
      using "1.prems"(3,4) vw True unfolding pe simple_cycle_def by simp
  next
    case False
    have wa: "w \<in> set avail"
    proof (rule ccontr)
      assume "w \<notin> set avail"
      with p False show False by simp
    qed
    with p False have pr: "p \<in> set (circuitsFrom m s (removeAll w avail) (v # path) w)"
      by simp
    have "successively ?E (rev (v # path) @ [w])"
      using "1.prems"(3) vw by (simp add: successively_append_iff last_rev)
    then have a: "successively ?E (rev (w # v # path))" by simp
    from wa "1.prems"(5) have "w \<notin> set (v # path)" by blast
    with "1.prems"(4) have b: "distinct (w # v # path)" by simp
    from "1.prems"(5) have c: "set (w # v # path) \<inter> set (removeAll w avail) = {}" by auto
    from "1.prems"(6) have d: "last (w # v # path) = s" by simp
    from w False wa pr dk a b c d show ?thesis by (rule "1.IH")
  qed
qed

lemma circuitsOf_sound:
  assumes dk: "distinct (map fst m)"
  shows "p \<in> set (circuitsOf m c) \<Longrightarrow> distinct c \<Longrightarrow> simple_cycle m p"
proof (induction c)
  case Nil
  then show ?case by simp
next
  case (Cons s rest)
  from Cons.prems(1) consider "p \<in> set (circuitsFrom m s rest [] s)" | "p \<in> set (circuitsOf m rest)"
    by auto
  then show ?case
  proof cases
    case 1
    from Cons.prems(2) have "set [s] \<inter> set rest = {}" by simp
    moreover have "successively (\<lambda>a b. (a, b) \<in> edges_of m) (rev [s])" by simp
    moreover have "distinct [s]" and "last [s] = s" by simp_all
    ultimately have "simple_cycle m p \<and> hd p = s"
      using circuitsFrom_sound [OF 1 dk] by blast
    then show ?thesis ..
  next
    case 2
    with Cons show ?thesis by simp
  qed
qed

lemma cyclePaths_sound:
  assumes "wf_graph g" and "p \<in> set (cyclePaths g None)"
  shows "simple_cycle (adjacencyList g) p"
proof -
  let ?m = "adjacencyList g"
  from assms(1) have dk: "distinct (map fst ?m)" by (simp add: wf_graph_def)
  from assms(2) obtain c where "c \<in> set (sccs ?m)" and p: "p \<in> set (circuitsOf ?m c)"
    by (auto simp add: cyclePaths_def Let_def)
  then obtain v where "c = component ?m v" by (auto simp add: sccs_set)
  then have "distinct c" by (simp add: component_def distinct_nodes)
  with dk p show ?thesis by (rule circuitsOf_sound)
qed

text \<open>
  C1. For the graph built from any relations, \<open>hasCycle()\<close> is true if and only if
  \<open>cyclePaths()\<close>, called without options, returns a non-empty list; and when one of the
  loaded relations is a self-loop, \<open>hasCycle()\<close> is true.
\<close>

theorem hasCycle_iff_cyclePaths_build:
  "hasCycle (build opts) = (cyclePaths (build opts) None \<noteq> [])
   \<and> ((\<exists>r\<in>set (loadRelations opts). srcFilePath r = dstFilePath r) \<longrightarrow> hasCycle (build opts))"
proof -
  have dk: "distinct (map fst (adjacencyList (build opts)))"
    using build_wf [of opts] by (simp add: wf_graph_def)
  have "hasCycle (build opts)" if "r \<in> set (loadRelations opts)" "srcFilePath r = dstFilePath r" for r
  proof -
    from that have "(srcFilePath r, srcFilePath r) \<in> edges_of (adjacencyList (build opts))"
      unfolding build_edges by (force simp add: endpoints_def)
    then have "srcFilePath r \<in> set (adj_get (adjacencyList (build opts)) (srcFilePath r))"
      by (simp add: adj_get_edges [OF dk])
    then show ?thesis by (auto simp add: hasCycle_def hasSelfLoop_iff [OF dk])
  qed
  with hasCycle_iff_cyclePaths [OF dk] show ?thesis by blast
qed

theorem hasCycle_iff_cyclePaths_build_witness:
  "(\<exists>r\<in>set (loadRelations (opts_of [imp ''a.ts'' ''a.ts'', imp ''b.ts'' ''c.ts''])).
      srcFilePath r = dstFilePath r)
   \<and> hasCycle (build (opts_of [imp ''a.ts'' ''a.ts'', imp ''b.ts'' ''c.ts'']))
   \<and> cyclePaths (build (opts_of [imp ''a.ts'' ''a.ts'', imp ''b.ts'' ''c.ts''])) None \<noteq> []"
proof -
  have l: "loadRelations (opts_of [imp ''a.ts'' ''a.ts'', imp ''b.ts'' ''c.ts''])
             = [imp ''a.ts'' ''a.ts'', imp ''b.ts'' ''c.ts'']"
    by (simp add: loadRelations_def opts_of_def repo_of_def imp_def)
  have h: "\<exists>r\<in>set (loadRelations (opts_of [imp ''a.ts'' ''a.ts'', imp ''b.ts'' ''c.ts''])).
             srcFilePath r = dstFilePath r"
    unfolding l by (simp add: imp_def)
  from hasCycle_iff_cyclePaths_build [of "opts_of [imp ''a.ts'' ''a.ts'', imp ''b.ts'' ''c.ts'']"] h
  show ?thesis by blast
qed

end
